theory Spec2Isabelle
  imports Main "HOL-Library.Sublist"
begin

section \<open>Python values, exceptions and text\<close>

text \<open>
  Text is a \<^typ>\<open>string\<close> holding the UTF-8 bytes of the Python \<open>str\<close>: the glyphs of
  \<open>main.py\<close> are written as their byte sequences. Concatenation, comparison with an ASCII
  literal and emptiness are the same on code points and on their UTF-8 encoding.

  An exception is one of the three classes the handlers of \<open>main\<close> tell apart:
  an instance of \<open>Exception\<close> (carrying \<open>str(e)\<close>), \<open>KeyboardInterrupt\<close>, or any other
  \<open>BaseException\<close> (such as \<open>SystemExit\<close>).
\<close>

datatype exn = Exception string | KeyboardInterrupt | BaseException string

fun is_Exception :: "exn \<Rightarrow> bool" where
  "is_Exception (Exception m) = True"
| "is_Exception KeyboardInterrupt = False"
| "is_Exception (BaseException m) = False"

fun str_exn :: "exn \<Rightarrow> string" where
  "str_exn (Exception m) = m"
| "str_exn KeyboardInterrupt = []"
| "str_exn (BaseException m) = m"

text \<open>
  The values a field of an appointment record may hold: the record is a plain \<open>dict\<close>, so a
  field is not bound to be a string. Floats and containers are left out.
\<close>

datatype pyval = PNone | PBool bool | PInt int | PStr string

type_synonym appointment = "string \<rightharpoonup> pyval"

text \<open>Python's truth value of an object, as \<open>if x:\<close> tests it.\<close>

fun truthy :: "pyval \<Rightarrow> bool" where
  "truthy PNone = False"
| "truthy (PBool b) = b"
| "truthy (PInt i) = (i \<noteq> 0)"
| "truthy (PStr s) = (s \<noteq> [])"

text \<open>Decimal rendering, \<open>str(n)\<close> of an \<open>int\<close>.\<close>

definition digit_char :: "nat \<Rightarrow> char" where
  "digit_char d = char_of (48 + d)"

fun str_nat :: "nat \<Rightarrow> string" where
  "str_nat n = (if n < 10 then [digit_char n] else str_nat (n div 10) @ [digit_char (n mod 10)])"

declare str_nat.simps [simp del]

definition str_int :: "int \<Rightarrow> string" where
  "str_int i = (if i < 0 then CHR ''-'' # str_nat (nat (- i)) else str_nat (nat i))"

text \<open>What an f-string writes for \<open>{v}\<close>: \<open>format(v, '')\<close>, which is \<open>str(v)\<close> for these types.\<close>

fun str_val :: "pyval \<Rightarrow> string" where
  "str_val PNone = ''None''"
| "str_val (PBool b) = (if b then ''True'' else ''False'')"
| "str_val (PInt i) = str_int i"
| "str_val (PStr s) = s"

text \<open>\<open>d.get(k, default)\<close>; \<open>d.get(k)\<close> is \<open>dict_get d k PNone\<close>.\<close>

definition dict_get :: "appointment \<Rightarrow> string \<Rightarrow> pyval \<Rightarrow> pyval" where
  "dict_get d k dflt = (case d k of None \<Rightarrow> dflt | Some v \<Rightarrow> v)"

text \<open>
  \<open>d[k]\<close>: raises \<open>KeyError\<close> on a missing key; \<open>str\<close> of a \<open>KeyError\<close> is the \<open>repr\<close> of the
  key, which for the plain ASCII keys used here is the key between single quotes.
\<close>

definition subscript :: "appointment \<Rightarrow> string \<Rightarrow> exn + pyval" where
  "subscript d k =
     (case d k of
        None \<Rightarrow> Inl (Exception ([CHR 0x27] @ k @ [CHR 0x27]))
      | Some v \<Rightarrow> Inr v)"

text \<open>
  \<open>v.title()\<close>: a method of \<open>str\<close> only; on any other object the attribute lookup raises
  \<open>AttributeError\<close>. The case mapping itself (\<open>str.title\<close>, with Python's Unicode tables) is
  not part of the repository and is the parameter \<open>title\<close>.
\<close>

fun type_name :: "pyval \<Rightarrow> string" where
  "type_name PNone = ''NoneType''"
| "type_name (PBool b) = ''bool''"
| "type_name (PInt i) = ''int''"
| "type_name (PStr s) = ''str''"

fun title_method :: "(string \<Rightarrow> string) \<Rightarrow> pyval \<Rightarrow> exn + string" where
  "title_method title (PStr s) = Inr (title s)"
| "title_method title v =
     Inl (Exception ([CHR 0x27] @ type_name v @ [CHR 0x27] @ '' object has no attribute ''
                     @ [CHR 0x27] @ ''title'' @ [CHR 0x27]))"

definition bind_exn :: "exn + 'a \<Rightarrow> ('a \<Rightarrow> exn + 'b) \<Rightarrow> exn + 'b" where
  "bind_exn r f = (case r of Inl e \<Rightarrow> Inl e | Inr x \<Rightarrow> f x)"

section \<open>The message formatter\<close>

text \<open>The glyphs of \<open>format_appointment_message\<close>, as UTF-8.\<close>

definition glyph_target :: string where
  "glyph_target = [CHR 0xF0, CHR 0x9F, CHR 0x8E, CHR 0xAF]"

definition glyph_pin :: string where
  "glyph_pin = [CHR 0xF0, CHR 0x9F, CHR 0x93, CHR 0x8D]"

definition glyph_calendar :: string where
  "glyph_calendar = [CHR 0xF0, CHR 0x9F, CHR 0x93, CHR 0x85]"

definition glyph_alarm :: string where
  "glyph_alarm = [CHR 0xE2, CHR 0x8F, CHR 0xB0]"

definition glyph_link :: string where
  "glyph_link = [CHR 0xF0, CHR 0x9F, CHR 0x94, CHR 0x97]"

definition glyph_red :: string where
  "glyph_red = [CHR 0xF0, CHR 0x9F, CHR 0x94, CHR 0xB4]"

definition glyph_yellow :: string where
  "glyph_yellow = [CHR 0xF0, CHR 0x9F, CHR 0x9F, CHR 0xA1]"

definition glyph_green :: string where
  "glyph_green = [CHR 0xF0, CHR 0x9F, CHR 0x9F, CHR 0xA2]"

definition glyph_chart :: string where
  "glyph_chart = [CHR 0xF0, CHR 0x9F, CHR 0x93, CHR 0x8A]"

definition glyph_bolt :: string where
  "glyph_bolt = [CHR 0xE2, CHR 0x9A, CHR 0xA1]"

definition glyph_globe :: string where
  "glyph_globe = [CHR 0xF0, CHR 0x9F, CHR 0x8C, CHR 0x90]"

definition glyph_stopwatch :: string where
  "glyph_stopwatch = [CHR 0xE2, CHR 0x8F, CHR 0xB1, CHR 0xEF, CHR 0xB8, CHR 0x8F]"

definition glyph_bulb :: string where
  "glyph_bulb = [CHR 0xF0, CHR 0x9F, CHR 0x92, CHR 0xA1]"

definition nl :: string where
  "nl = [CHR 0x0A]"

text \<open>
  Line 136: the conditional expression choosing \<open>confidence_emoji\<close>. A value that is not a
  \<open>str\<close> compares unequal to both literals.
\<close>

definition confidence_emoji :: "pyval \<Rightarrow> string" where
  "confidence_emoji c =
     (if c = PStr ''low'' then glyph_red
      else if c = PStr ''medium'' then glyph_yellow
      else glyph_green)"

text \<open>
  \<open>format_appointment_message\<close> (lines 124 to 154). \<open>stamp\<close> is the text
  \<open>datetime.now(morocco_tz).strftime(...)\<close> produces at the call; the clock and the time
  zone library are outside the repository and taken not to fail. The three reads of
  \<open>appointment['confidence']\<close> on lines 136 and 137 see the same unchanged dict and are one
  \<open>subscript\<close> here.
\<close>

definition format_appointment_message ::
    "(string \<Rightarrow> string) \<Rightarrow> string \<Rightarrow> appointment \<Rightarrow> exn + string" where
  "format_appointment_message title stamp appointment =
    (let message = glyph_target @ '' **VISA APPOINTMENT AVAILABLE!**'' @ nl @ nl;
         message = message @ glyph_pin @ '' **Location:** ''
                   @ str_val (dict_get appointment ''location'' (PStr ''Italy Visa Center Morocco''))
                   @ nl;
         message = message @ glyph_calendar @ '' **Date:** ''
                   @ str_val (dict_get appointment ''date'' (PStr ''Not specified'')) @ nl;
         message = message @ glyph_alarm @ '' **Time:** ''
                   @ str_val (dict_get appointment ''time'' (PStr ''Not specified'')) @ nl
     in bind_exn
          (if truthy (dict_get appointment ''link'' PNone)
           then bind_exn (subscript appointment ''link'')
                  (\<lambda>v. Inr (message @ glyph_link @ '' **Book Now:** '' @ str_val v @ nl))
           else Inr message)
       (\<lambda>message. bind_exn
          (if truthy (dict_get appointment ''confidence'' PNone)
           then bind_exn (subscript appointment ''confidence'')
                  (\<lambda>c. bind_exn (title_method title c)
                     (\<lambda>t. Inr (message @ confidence_emoji c @ '' **Confidence:** '' @ t @ nl)))
           else Inr message)
       (\<lambda>message. bind_exn
          (if truthy (dict_get appointment ''source'' PNone)
           then bind_exn (subscript appointment ''source'')
                  (\<lambda>v. Inr (message @ glyph_chart @ '' **Source:** '' @ str_val v @ nl))
           else Inr message)
       (\<lambda>message.
          let message = message @ nl @ glyph_bolt
                @ '' **Action Required:** Log in to VFS Global immediately to book this slot!''
                @ nl;
              message = message @ glyph_globe
                @ '' **Website:** https://visa.vfsglobal.com/mar/fr/ita/dashboard'' @ nl;
              message = message @ glyph_stopwatch @ '' **Found at:** '' @ stamp
          in if truthy (dict_get appointment ''note'' PNone)
             then bind_exn (subscript appointment ''note'')
                    (\<lambda>v. Inr (message @ nl @ nl @ glyph_bulb @ '' **Note:** '' @ str_val v))
             else Inr message))))"

section \<open>The monitoring loop\<close>

text \<open>
  What the program does to the outside is kept as a trace of events: each log call (by level;
  the log text is not kept), each call of a collaborator, each call of
  \<open>telegram_notifier.send_message\<close> with its text (the call is recorded whether it returns or
  raises), and each sleep.
\<close>

datatype level = INFO | WARNING | ERROR | CRITICAL

datatype event =
    Log level
  | KeepAlive
  | CheckAppointments
  | CheckAvailability
  | SendMessage string
  | Sleep

text \<open>The three local variables of \<open>main\<close> that live across cycles (lines 48 to 51).\<close>

record loop_state =
  last_check_time :: "string option"
  consecutive_errors :: int
  use_enhanced_method :: bool

definition init_state :: loop_state where
  "init_state = \<lparr>last_check_time = None, consecutive_errors = 0, use_enhanced_method = False\<rparr>"

definition max_consecutive_errors :: int where
  "max_consecutive_errors = 5"

text \<open>
  What the collaborators answer during one cycle. Every call site of the cycle has its own
  answer, so the model fixes nothing about them:
  \<^item> \<open>current_time\<close>: \<open>datetime.now(config.timezone)\<close> and its \<open>strftime\<close> (lines 55, 56),
    the text of the time or the exception raised;
  \<^item> \<open>check_appointments\<close>, \<open>check_availability\<close>: the records returned or the exception;
  \<^item> \<open>found_at k\<close>: the clock text inside the formatter for the \<open>k\<close>-th record;
  \<^item> \<open>send_message k text\<close>: the outcome of the send for the \<open>k\<close>-th record (line 84);
  \<^item> \<open>send_warning text\<close>, \<open>send_stopped text\<close>: the outcome of the sends on lines 99, 105;
  \<^item> \<open>sleep\<close>: the outcome of \<open>time.sleep\<close> (line 110).
  \<open>None\<close> is a call that returns.
\<close>

record cycle_env =
  current_time :: "exn + string"
  check_appointments :: "exn + appointment list"
  check_availability :: "exn + appointment list"
  found_at :: "nat \<Rightarrow> string"
  send_message :: "nat \<Rightarrow> string \<Rightarrow> exn option"
  send_warning :: "string \<Rightarrow> exn option"
  send_stopped :: "string \<Rightarrow> exn option"
  sleep :: "exn option"

text \<open>
  Lines 61 to 67. The result is the record list, the new value of \<open>use_enhanced_method\<close>,
  the events, and the exception that leaves the block, if any: \<open>except Exception\<close> does not
  catch \<open>KeyboardInterrupt\<close> or another bare \<open>BaseException\<close>.
\<close>

definition primary_phase ::
    "cycle_env \<Rightarrow> bool \<Rightarrow> appointment list \<times> bool \<times> event list \<times> exn option" where
  "primary_phase env use_enhanced =
     (if \<not> use_enhanced then
        (case check_appointments env of
           Inr found \<Rightarrow> (found, use_enhanced, [CheckAppointments], None)
         | Inl e \<Rightarrow>
             if is_Exception e
             then ([], True, [CheckAppointments, Log WARNING, Log INFO], None)
             else ([], use_enhanced, [CheckAppointments], Some e))
      else ([], use_enhanced, [], None))"

text \<open>Lines 69 to 76.\<close>

definition enhanced_phase ::
    "cycle_env \<Rightarrow> bool \<Rightarrow> appointment list \<Rightarrow> appointment list \<times> event list \<times> exn option" where
  "enhanced_phase env use_enhanced appointments =
     (if use_enhanced \<or> appointments = [] then
        (case check_availability env of
           Inr enhanced_appointments \<Rightarrow>
             if enhanced_appointments \<noteq> []
             then (appointments @ enhanced_appointments, [CheckAvailability, Log INFO], None)
             else (appointments, [CheckAvailability], None)
         | Inl e \<Rightarrow>
             if is_Exception e
             then (appointments, [CheckAvailability, Log ERROR], None)
             else (appointments, [CheckAvailability], Some e))
      else (appointments, [], None))"

text \<open>Lines 82 to 85: the \<open>for\<close> loop, from the \<open>k\<close>-th record on.\<close>

fun notify_all ::
    "(string \<Rightarrow> string) \<Rightarrow> cycle_env \<Rightarrow> nat \<Rightarrow> appointment list \<Rightarrow> event list \<times> exn option" where
  "notify_all title env k [] = ([], None)"
| "notify_all title env k (appointment # rest) =
     (case format_appointment_message title (found_at env k) appointment of
        Inl e \<Rightarrow> ([], Some e)
      | Inr message \<Rightarrow>
          (case send_message env k message of
             Some e \<Rightarrow> ([SendMessage message], Some e)
           | None \<Rightarrow>
               (case notify_all title env (Suc k) rest of
                  (evs, r) \<Rightarrow> (SendMessage message # Log INFO # evs, r))))"

text \<open>Lines 78 to 87.\<close>

definition notify_phase ::
    "(string \<Rightarrow> string) \<Rightarrow> cycle_env \<Rightarrow> appointment list \<Rightarrow> event list \<times> exn option" where
  "notify_phase title env appointments =
     (if appointments \<noteq> [] then
        (case notify_all title env 0 appointments of (evs, r) \<Rightarrow> (Log INFO # evs, r))
      else ([Log INFO], None))"

text \<open>
  Lines 55 to 90, the body of the inner \<open>try\<close>: the state it leaves, its events, and the
  exception that ends it (\<open>None\<close> when it runs to line 90). An assignment made before the
  exception stays made.
\<close>

definition try_body ::
    "(string \<Rightarrow> string) \<Rightarrow> cycle_env \<Rightarrow> loop_state \<Rightarrow> loop_state \<times> event list \<times> exn option" where
  "try_body title env st =
     (case current_time env of
        Inl e \<Rightarrow> (st, [], Some e)
      | Inr now \<Rightarrow>
          (case primary_phase env (use_enhanced_method st) of
             (appointments, use_enhanced, evs1, r1) \<Rightarrow>
               let st1 = st\<lparr>use_enhanced_method := use_enhanced\<rparr> in
               (case r1 of
                  Some e \<Rightarrow> (st1, Log INFO # evs1, Some e)
                | None \<Rightarrow>
                    (case enhanced_phase env use_enhanced appointments of
                       (appointments, evs2, r2) \<Rightarrow>
                         (case r2 of
                            Some e \<Rightarrow> (st1, Log INFO # evs1 @ evs2, Some e)
                          | None \<Rightarrow>
                              (case notify_phase title env appointments of
                                 (evs3, r3) \<Rightarrow>
                                   (case r3 of
                                      Some e \<Rightarrow> (st1, Log INFO # evs1 @ evs2 @ evs3, Some e)
                                    | None \<Rightarrow>
                                        (st1\<lparr>last_check_time := Some now,
                                             consecutive_errors := 0\<rparr>,
                                         Log INFO # evs1 @ evs2 @ evs3, None))))))))"

definition glyph_warning :: string where
  "glyph_warning = [CHR 0xE2, CHR 0x9A, CHR 0xA0, CHR 0xEF, CHR 0xB8, CHR 0x8F]"

definition glyph_siren :: string where
  "glyph_siren = [CHR 0xF0, CHR 0x9F, CHR 0x9A, CHR 0xA8]"

definition glyph_stop_sign :: string where
  "glyph_stop_sign = [CHR 0xF0, CHR 0x9F, CHR 0x9B, CHR 0x91]"

definition glyph_robot :: string where
  "glyph_robot = [CHR 0xF0, CHR 0x9F, CHR 0xA4, CHR 0x96]"

text \<open>Line 94, and the texts sent on lines 99 and 105.\<close>

definition error_msg :: "int \<Rightarrow> exn \<Rightarrow> string" where
  "error_msg n e =
     ''Error checking appointments (attempt '' @ str_int n @ ''/''
     @ str_int max_consecutive_errors @ ''): '' @ str_exn e"

definition warning_text :: "string \<Rightarrow> string" where
  "warning_text msg = glyph_warning @ '' Monitor Warning'' @ nl @ msg"

definition stopped_text :: string where
  "stopped_text =
     glyph_siren @ '' Monitor Stopped'' @ nl @ ''Too many consecutive errors (''
     @ str_int max_consecutive_errors @ ''). Stopping monitor.''"

datatype control = Continue | Break | Escape exn

text \<open>
  Lines 93 to 106, the handler \<open>except Exception as e\<close>. Nothing inside it is guarded, so an
  exception raised by a send leaves the handler and the \<open>while\<close> loop.
\<close>

definition except_handler ::
    "cycle_env \<Rightarrow> loop_state \<Rightarrow> exn \<Rightarrow> loop_state \<times> event list \<times> control" where
  "except_handler env st e =
     (let n = consecutive_errors st + 1;
          st' = st\<lparr>consecutive_errors := n\<rparr>;
          msg = error_msg n e;
          (evs, r) =
            (if n \<ge> 3
             then ([Log ERROR, SendMessage (warning_text msg)], send_warning env (warning_text msg))
             else ([Log ERROR], None))
      in case r of
           Some e' \<Rightarrow> (st', evs, Escape e')
         | None \<Rightarrow>
             if n \<ge> max_consecutive_errors then
               (case send_stopped env stopped_text of
                  Some e' \<Rightarrow> (st', evs @ [Log CRITICAL, SendMessage stopped_text], Escape e')
                | None \<Rightarrow> (st', evs @ [Log CRITICAL, SendMessage stopped_text], Break))
             else (st', evs, Continue))"

text \<open>Lines 109 and 110.\<close>

definition wait :: "cycle_env \<Rightarrow> event list \<times> control" where
  "wait env =
     ([Log INFO, Sleep], (case sleep env of None \<Rightarrow> Continue | Some e \<Rightarrow> Escape e))"

text \<open>One turn of the \<open>while True\<close> loop, lines 54 to 110.\<close>

definition cycle ::
    "(string \<Rightarrow> string) \<Rightarrow> cycle_env \<Rightarrow> loop_state \<Rightarrow> loop_state \<times> event list \<times> control" where
  "cycle title env st =
     (case try_body title env st of
        (st1, evs, None) \<Rightarrow>
          (case wait env of (evs_w, c) \<Rightarrow> (st1, evs @ evs_w, c))
      | (st1, evs, Some e) \<Rightarrow>
          if is_Exception e then
            (case except_handler env st1 e of
               (st2, evs_h, Continue) \<Rightarrow>
                 (case wait env of (evs_w, c) \<Rightarrow> (st2, evs @ evs_h @ evs_w, c))
             | (st2, evs_h, c) \<Rightarrow> (st2, evs @ evs_h, c))
          else (st1, evs, Escape e))"

text \<open>
  The \<open>while True\<close> loop over the answers of a finite number of cycles. The loop of the
  program has no bound: \<open>Running\<close> is the loop still going when the listed cycles are over,
  \<open>Broke\<close> is the \<open>break\<close> of line 106, \<open>Raised e\<close> is an exception leaving the loop.
\<close>

datatype outcome = Running | Broke | Raised exn

fun monitor_loop ::
    "(string \<Rightarrow> string) \<Rightarrow> loop_state \<Rightarrow> cycle_env list \<Rightarrow> loop_state \<times> event list \<times> outcome" where
  "monitor_loop title st [] = (st, [], Running)"
| "monitor_loop title st (env # envs) =
     (case cycle title env st of
        (st', evs, Continue) \<Rightarrow>
          (case monitor_loop title st' envs of (st'', evs', r) \<Rightarrow> (st'', evs @ evs', r))
      | (st', evs, Break) \<Rightarrow> (st', evs, Broke)
      | (st', evs, Escape e) \<Rightarrow> (st', evs, Raised e))"

section \<open>The entry point\<close>

text \<open>
  What the outside answers to \<open>main\<close>: \<open>keep_alive()\<close> (line 31, before the \<open>try\<close>), the
  text of the start time, the startup send (line 46), the cycles, and the send made by
  whichever top-level handler runs (line 114 or 119). Lines 36 to 45, which build the
  configuration and the collaborators, are taken to return.
\<close>

record main_env =
  keep_alive :: "exn option"
  start_time :: string
  send_startup :: "string \<Rightarrow> exn option"
  cycles :: "cycle_env list"
  send_final :: "string \<Rightarrow> exn option"

definition startup_text :: "string \<Rightarrow> string" where
  "startup_text started =
     glyph_robot @ '' VFS Appointment Monitor Started'' @ nl
     @ ''Monitoring Italy visa appointments in Morocco with enhanced detection methods...''
     @ nl @ nl @ glyph_alarm @ '' Started at: '' @ started"

definition user_stop_text :: string where
  "user_stop_text = glyph_stop_sign @ '' VFS Monitor stopped by user''"

definition critical_text :: "exn \<Rightarrow> string" where
  "critical_text e =
     glyph_siren @ '' Critical Error'' @ nl @ ''Critical error in main loop: '' @ str_exn e"

text \<open>Lines 34 to 110, the body of the outer \<open>try\<close>.\<close>

definition try_block :: "(string \<Rightarrow> string) \<Rightarrow> main_env \<Rightarrow> event list \<times> outcome" where
  "try_block title env =
     (case send_startup env (startup_text (start_time env)) of
        Some e \<Rightarrow> ([SendMessage (startup_text (start_time env))], Raised e)
      | None \<Rightarrow>
          (case monitor_loop title init_state (cycles env) of
             (st, evs, r) \<Rightarrow> (SendMessage (startup_text (start_time env)) # evs, r)))"

text \<open>
  How a call of \<open>main\<close> ends: it returns, an exception propagates to the caller (the
  interpreter then exits with a non-zero status), or the loop is still running when the
  listed cycles are over.
\<close>

datatype result = Returned | Propagated exn | StillRunning

text \<open>
  \<open>main\<close>, lines 30 to 122. In the handler of line 115 the send is inside
  \<open>try: ... except: pass\<close>, so both of its outcomes lead to the bare \<open>raise\<close>, which raises
  the exception being handled. The send in the handler of line 112 is not guarded.
\<close>

definition main :: "(string \<Rightarrow> string) \<Rightarrow> main_env \<Rightarrow> event list \<times> result" where
  "main title env =
     (case keep_alive env of
        Some e \<Rightarrow> ([KeepAlive], Propagated e)
      | None \<Rightarrow>
          (case try_block title env of
             (evs_t, r) \<Rightarrow>
               let evs = KeepAlive # Log INFO # evs_t in
               (case r of
                  Running \<Rightarrow> (evs, StillRunning)
                | Broke \<Rightarrow> (evs, Returned)
                | Raised KeyboardInterrupt \<Rightarrow>
                    (evs @ [Log INFO, SendMessage user_stop_text],
                     (case send_final env user_stop_text of
                        None \<Rightarrow> Returned
                      | Some e' \<Rightarrow> Propagated e'))
                | Raised (Exception m) \<Rightarrow>
                    (evs @ [Log CRITICAL, SendMessage (critical_text (Exception m))],
                     (case send_final env (critical_text (Exception m)) of
                        None \<Rightarrow> Propagated (Exception m)
                      | Some e' \<Rightarrow> Propagated (Exception m)))
                | Raised (BaseException m) \<Rightarrow> (evs, Propagated (BaseException m)))))"

section \<open>Observations and scenarios\<close>

text \<open>The three parts of what a cycle, the loop or a phase returns.\<close>

abbreviation state_of :: "'s \<times> 'e \<times> 'c \<Rightarrow> 's" where
  "state_of r \<equiv> fst r"

abbreviation events_of :: "'s \<times> 'e \<times> 'c \<Rightarrow> 'e" where
  "events_of r \<equiv> fst (snd r)"

abbreviation ending_of :: "'s \<times> 'e \<times> 'c \<Rightarrow> 'c" where
  "ending_of r \<equiv> snd (snd r)"

text \<open>A warning notification is a send whose text starts as the one of line 99.\<close>

fun is_warning :: "event \<Rightarrow> bool" where
  "is_warning (SendMessage text) = prefix (glyph_warning @ '' Monitor Warning'') text"
| "is_warning _ = False"

text \<open>
  A cycle fails when the body of its \<open>try\<close> ends by an exception that \<open>except Exception\<close>
  catches.
\<close>

definition cycle_failed :: "(string \<Rightarrow> string) \<Rightarrow> cycle_env \<Rightarrow> loop_state \<Rightarrow> bool" where
  "cycle_failed title env st =
     (case ending_of (try_body title env st) of None \<Rightarrow> False | Some e \<Rightarrow> is_Exception e)"

text \<open>The text the formatter gives for the empty record, up to the time stamp.\<close>

definition empty_record_head :: string where
  "empty_record_head =
     glyph_target @ '' **VISA APPOINTMENT AVAILABLE!**'' @ nl @ nl
     @ glyph_pin @ '' **Location:** Italy Visa Center Morocco'' @ nl
     @ glyph_calendar @ '' **Date:** Not specified'' @ nl
     @ glyph_alarm @ '' **Time:** Not specified'' @ nl
     @ nl @ glyph_bolt
     @ '' **Action Required:** Log in to VFS Global immediately to book this slot!'' @ nl
     @ glyph_globe @ '' **Website:** https://visa.vfsglobal.com/mar/fr/ita/dashboard'' @ nl
     @ glyph_stopwatch @ '' **Found at:** ''"

text \<open>
  \<open>str.title\<close> on ASCII text, for the scenarios: a letter is upper-cased when the character
  before it is not a letter, and lower-cased otherwise.
\<close>

definition is_upper :: "char \<Rightarrow> bool" where
  "is_upper ch = ((65::nat) \<le> of_char ch \<and> of_char ch \<le> (90::nat))"

definition is_lower :: "char \<Rightarrow> bool" where
  "is_lower ch = ((97::nat) \<le> of_char ch \<and> of_char ch \<le> (122::nat))"

fun title_from :: "bool \<Rightarrow> string \<Rightarrow> string" where
  "title_from previous_is_cased [] = []"
| "title_from previous_is_cased (ch # rest) =
     (if is_upper ch then
        (if previous_is_cased then char_of (of_char ch + (32::nat)) else ch) # title_from True rest
      else if is_lower ch then
        (if previous_is_cased then ch else char_of (of_char ch - (32::nat))) # title_from True rest
      else ch # title_from False rest)"

definition ascii_title :: "string \<Rightarrow> string" where
  "ascii_title s = title_from False s"

text \<open>Cycles and records for the scenarios.\<close>

definition quiet_cycle :: cycle_env where
  "quiet_cycle =
     \<lparr>current_time = Inr ''2024-05-01 09:00:00 +01'',
      check_appointments = Inr [],
      check_availability = Inr [],
      found_at = (\<lambda>k. ''2024-05-01 09:00:01 +01''),
      send_message = (\<lambda>k text. None),
      send_warning = (\<lambda>text. None),
      send_stopped = (\<lambda>text. None),
      sleep = None\<rparr>"

definition failing_cycle :: cycle_env where
  "failing_cycle = quiet_cycle\<lparr>current_time := Inl (Exception ''clock'')\<rparr>"

definition warning_send_fails :: cycle_env where
  "warning_send_fails = failing_cycle\<lparr>send_warning := (\<lambda>text. Some (Exception ''telegram''))\<rparr>"

definition primary_fails :: cycle_env where
  "primary_fails = quiet_cycle\<lparr>check_appointments := Inl (Exception ''markup'')\<rparr>"

definition slot :: appointment where
  "slot = [''date'' \<mapsto> PStr ''2024-05-01'', ''time'' \<mapsto> PStr ''09:00'']"

definition sure_slot :: appointment where
  "sure_slot = [''confidence'' \<mapsto> PStr ''certain'']"



definition low_slot :: appointment where
  "low_slot = [''confidence'' \<mapsto> PStr ''low'']"


definition primary_finds :: cycle_env where
  "primary_finds = quiet_cycle\<lparr>check_appointments := Inr [slot]\<rparr>"

definition two_failures_then_outage :: "cycle_env list" where
  "two_failures_then_outage = [failing_cycle, failing_cycle, warning_send_fails]"

definition fallback_fails :: cycle_env where
  "fallback_fails = quiet_cycle\<lparr>check_availability := Inl (Exception ''blocked'')\<rparr>"

definition stop_send_fails :: cycle_env where
  "stop_send_fails = failing_cycle\<lparr>send_stopped := (\<lambda>text. Some (Exception ''telegram''))\<rparr>"

definition outage :: main_env where
  "outage =
     \<lparr>keep_alive = None,
      start_time = ''2024-05-01 08:00:00 +01'',
      send_startup = (\<lambda>text. None),
      cycles = two_failures_then_outage,
      send_final = (\<lambda>text. Some (Exception ''telegram''))\<rparr>"

definition three_slots :: "appointment list" where
  "three_slots = [slot, sure_slot, low_slot]"

definition flood_cycle :: cycle_env where
  "flood_cycle =
     quiet_cycle\<lparr>check_appointments := Inr three_slots,
                 send_message := (\<lambda>k text. if k = 1 then Some (Exception ''flood'') else None)\<rparr>"

definition flood_text :: "nat \<Rightarrow> string" where
  "flood_text i =
     (if i < length three_slots then
        (case format_appointment_message ascii_title (found_at flood_cycle i) (three_slots ! i) of
           Inl e \<Rightarrow> []
         | Inr message \<Rightarrow> message)
      else [])"

section \<open>The formatter\<close>

lemma format_starts:
  "format_appointment_message title stamp a = Inr m \<Longrightarrow> \<exists>r. m = glyph_target @ r"
  unfolding format_appointment_message_def Let_def bind_exn_def
  by (auto split: if_splits sum.splits)

lemma format_not_warning:
  "format_appointment_message title stamp a = Inr m \<Longrightarrow> \<not> is_warning (SendMessage m)"
  by (auto dest!: format_starts simp: glyph_target_def glyph_warning_def)

text \<open>
  C6. On the empty record the formatter returns (it does not raise) the fixed text
  \<open>empty_record_head\<close> followed by the time stamp and nothing more. That text holds the
  default location and ``Not specified'' for the date and for the time, and no confidence,
  source or note line.
\<close>

theorem empty_record_message:
  "format_appointment_message title stamp Map.empty = Inr (empty_record_head @ stamp)
   \<and> sublist '' **Location:** Italy Visa Center Morocco'' empty_record_head
   \<and> sublist '' **Date:** Not specified'' empty_record_head
   \<and> sublist '' **Time:** Not specified'' empty_record_head
   \<and> \<not> sublist ''Confidence'' empty_record_head
   \<and> \<not> sublist ''Source'' empty_record_head
   \<and> \<not> sublist ''Note'' empty_record_head"
proof -
  have "format_appointment_message title stamp Map.empty = Inr (empty_record_head @ stamp)"
    by (simp add: format_appointment_message_def empty_record_head_def dict_get_def bind_exn_def)
  moreover have "sublist '' **Location:** Italy Visa Center Morocco'' empty_record_head"
    by code_simp
  moreover have "sublist '' **Date:** Not specified'' empty_record_head"
    by code_simp
  moreover have "sublist '' **Time:** Not specified'' empty_record_head"
    by code_simp
  moreover have "\<not> sublist ''Confidence'' empty_record_head"
    by code_simp
  moreover have "\<not> sublist ''Source'' empty_record_head"
    by code_simp
  moreover have "\<not> sublist ''Note'' empty_record_head"
    by code_simp
  ultimately show ?thesis by blast
qed






section \<open>The phases of a cycle\<close>

lemma notify_all_no_warning:
  "notify_all title env k apps = (evs, r) \<Longrightarrow> filter is_warning evs = []"
proof (induction apps arbitrary: k evs r)
  case Nil
  then show ?case by simp
next
  case (Cons a apps)
  obtain evs' r' where rest: "notify_all title env (Suc k) apps = (evs', r')"
    by (cases "notify_all title env (Suc k) apps") auto
  show ?case
  proof (cases "format_appointment_message title (found_at env k) a")
    case (Inl e)
    then show ?thesis using Cons.prems by auto
  next
    case (Inr m)
    have nw: "\<not> is_warning (SendMessage m)" using Inr by (rule format_not_warning)
    show ?thesis
      using Cons.prems Inr nw rest Cons.IH [OF rest]
      by (cases "send_message env k m") auto
  qed
qed

lemma notify_all_no_fallback:
  "notify_all title env k apps = (evs, r) \<Longrightarrow> CheckAvailability \<notin> set evs"
proof (induction apps arbitrary: k evs r)
  case Nil
  then show ?case by simp
next
  case (Cons a apps)
  obtain evs' r' where rest: "notify_all title env (Suc k) apps = (evs', r')"
    by (cases "notify_all title env (Suc k) apps") auto
  show ?case
    using Cons.prems rest Cons.IH [OF rest]
    by (auto split: sum.splits option.splits)
qed

lemma primary_no_warning:
  "primary_phase env ue = (a, u, evs, r) \<Longrightarrow> filter is_warning evs = []"
  by (auto simp: primary_phase_def split: if_splits sum.splits)

lemma enhanced_no_warning:
  "enhanced_phase env ue a = (a', evs, r) \<Longrightarrow> filter is_warning evs = []"
  by (auto simp: enhanced_phase_def split: if_splits sum.splits)

lemma notify_phase_no_warning:
  "notify_phase title env a = (evs, r) \<Longrightarrow> filter is_warning evs = []"
  by (auto simp: notify_phase_def split: if_splits prod.splits dest: notify_all_no_warning)

lemma try_body_no_warning:
  "try_body title env st = (st1, evs, r) \<Longrightarrow> filter is_warning evs = []"
  unfolding try_body_def Let_def
  by (auto split: sum.splits prod.splits option.splits
      dest: primary_no_warning enhanced_no_warning notify_phase_no_warning)

lemma try_body_counter:
  "try_body title env st = (st1, evs, Some e) \<Longrightarrow>
     consecutive_errors st1 = consecutive_errors st \<and> last_check_time st1 = last_check_time st"
  unfolding try_body_def Let_def
  by (auto split: sum.splits prod.splits option.splits)

lemma try_body_reset:
  "try_body title env st = (st1, evs, None) \<Longrightarrow> consecutive_errors st1 = 0"
  unfolding try_body_def Let_def
  by (auto split: sum.splits prod.splits option.splits)

lemma try_body_flag:
  "try_body title env st = (st1, evs, r) \<Longrightarrow> use_enhanced_method st \<Longrightarrow>
     use_enhanced_method st1"
  unfolding try_body_def Let_def primary_phase_def
  by (auto split: sum.splits prod.splits option.splits)

lemma stopped_not_warning: "\<not> prefix (glyph_warning @ '' Monitor Warning'') stopped_text"
  by (simp add: stopped_text_def glyph_siren_def glyph_warning_def)

lemma warning_is_warning: "prefix (glyph_warning @ '' Monitor Warning'') (warning_text msg)"
  by (simp add: warning_text_def)

lemma handler_warnings:
  "except_handler env st e = (st', evs, c) \<Longrightarrow>
     length (filter is_warning evs) = (if 3 \<le> consecutive_errors st + 1 then 1 else 0)"
  unfolding except_handler_def Let_def
  by (auto split: if_splits option.splits simp: stopped_not_warning warning_is_warning)

lemma handler_cases:
  assumes "except_handler env st e = (st', evs, c)"
  shows "consecutive_errors st' = consecutive_errors st + 1"
    and "c = Continue \<Longrightarrow> consecutive_errors st' < 5"
    and "c = Break \<Longrightarrow> 5 \<le> consecutive_errors st'"
    and "c = Escape x \<Longrightarrow>
           (\<exists>text. send_warning env text = Some x \<or> send_stopped env text = Some x)"
  using assms unfolding except_handler_def Let_def max_consecutive_errors_def
  by (auto split: if_splits option.splits)

lemma handler_flag:
  "except_handler env st e = (st', evs, c) \<Longrightarrow>
     use_enhanced_method st' = use_enhanced_method st"
  unfolding except_handler_def Let_def
  by (auto split: if_splits option.splits)

lemma handler_no_fallback:
  "except_handler env st e = (st', evs, c) \<Longrightarrow> CheckAvailability \<notin> set evs"
  unfolding except_handler_def Let_def
  by (auto split: if_splits option.splits)

lemma wait_no_warning: "wait env = (evs, c) \<Longrightarrow> filter is_warning evs = []"
  by (auto simp: wait_def)

lemma wait_cases:
  "wait env = (evs, c) \<Longrightarrow> c = Continue \<or> (\<exists>x. c = Escape x \<and> sleep env = Some x)"
  by (auto simp: wait_def split: option.splits)

lemma cycle_flag_from_body:
  "try_body title env st = (st1, evs1, r) \<Longrightarrow> cycle title env st = (st', evs, c) \<Longrightarrow>
     use_enhanced_method st' = use_enhanced_method st1"
  unfolding cycle_def
  by (auto split: prod.splits option.splits control.splits if_splits dest: handler_flag)

section \<open>The warning notification\<close>

text \<open>
  C1, as the code has it. A send is counted when it is called. In every cycle the number of
  warning notifications is one when the cycle fails and \<open>consecutive_errors\<close>, after its
  increment, is 3 or more, and none otherwise: the warning goes out on the third failure of
  a streak and again on each later failure of that streak.
\<close>

theorem warning_on_every_failure_from_third:
  "length (filter is_warning (events_of (cycle title env st))) =
     (if cycle_failed title env st \<and> 3 \<le> consecutive_errors st + 1 then 1 else 0)"
proof (cases "try_body title env st")
  case (fields st1 evs1 r)
  have nw: "filter is_warning evs1 = []" using fields by (rule try_body_no_warning)
  obtain evw cw where w: "wait env = (evw, cw)" by (cases "wait env") auto
  have ww: "filter is_warning evw = []" using w by (rule wait_no_warning)
  show ?thesis
  proof (cases r)
    case None
    then show ?thesis
      using fields nw w ww by (simp add: cycle_def cycle_failed_def)
  next
    case (Some e)
    have ce: "consecutive_errors st1 = consecutive_errors st"
      using fields Some try_body_counter by blast
    show ?thesis
    proof (cases "is_Exception e")
      case False
      then show ?thesis using fields nw Some by (simp add: cycle_def cycle_failed_def)
    next
      case True
      obtain st2 evs2 c2 where h: "except_handler env st1 e = (st2, evs2, c2)"
        by (cases "except_handler env st1 e") auto
      have hw: "length (filter is_warning evs2) =
                  (if 3 \<le> consecutive_errors st + 1 then 1 else 0)"
        using handler_warnings [OF h] ce by simp
      show ?thesis
        using fields nw Some True h hw w ww
        by (cases c2) (simp_all add: cycle_def cycle_failed_def)
    qed
  qed
qed

theorem warning_on_every_failure_from_third_witness:
  "cycle_failed id failing_cycle (init_state\<lparr>consecutive_errors := 3\<rparr>)
   \<and> length (filter is_warning
        (events_of (cycle id failing_cycle (init_state\<lparr>consecutive_errors := 3\<rparr>)))) = 1
   \<and> length (filter is_warning
        (events_of (cycle id failing_cycle (init_state\<lparr>consecutive_errors := 1\<rparr>)))) = 0
   \<and> length (filter is_warning (events_of (cycle id quiet_cycle init_state))) = 0"
proof -
  have f: "cycle_failed id failing_cycle st" for st
    by (simp add: cycle_failed_def try_body_def failing_cycle_def)
  have q: "\<not> cycle_failed id quiet_cycle init_state"
    by (simp add: cycle_failed_def try_body_def quiet_cycle_def primary_phase_def
        enhanced_phase_def notify_phase_def init_state_def)
  show ?thesis
    using f q
      warning_on_every_failure_from_third
        [of id failing_cycle "init_state\<lparr>consecutive_errors := 3\<rparr>"]
      warning_on_every_failure_from_third
        [of id failing_cycle "init_state\<lparr>consecutive_errors := 1\<rparr>"]
      warning_on_every_failure_from_third [of id quiet_cycle init_state]
    by (simp add: init_state_def)
qed

text \<open>
  C1 as stated fails: five failing cycles in a row, from the initial state, send three
  warning notifications (on the third, fourth and fifth), not one.
\<close>

theorem one_warning_per_streak_counterexample:
  "length (filter is_warning
     (events_of (monitor_loop id init_state (replicate 5 failing_cycle)))) = 3
   \<and> ending_of (monitor_loop id init_state (replicate 5 failing_cycle)) = Broke"
  by code_simp

section \<open>Leaving the loop\<close>

lemma cycle_step:
  assumes c: "cycle title env st = (st', evs, c)"
    and lo: "0 \<le> consecutive_errors st" and hi: "consecutive_errors st < 5"
  shows "(c = Continue \<longrightarrow> 0 \<le> consecutive_errors st' \<and> consecutive_errors st' < 5)
       \<and> (c = Break \<longrightarrow> consecutive_errors st' = 5)
       \<and> (\<forall>x. c = Escape x \<longrightarrow> \<not> is_Exception x \<or> sleep env = Some x
             \<or> (\<exists>text. send_warning env text = Some x \<or> send_stopped env text = Some x))"
proof (cases "try_body title env st")
  case (fields st1 evs1 r)
  obtain evw cw where w: "wait env = (evw, cw)" by (cases "wait env") auto
  show ?thesis
  proof (cases r)
    case None
    have "consecutive_errors st1 = 0" using fields None try_body_reset by blast
    then show ?thesis
      using c fields None w wait_cases [OF w] by (auto simp: cycle_def)
  next
    case (Some e)
    have ce: "consecutive_errors st1 = consecutive_errors st"
      using fields Some try_body_counter by blast
    show ?thesis
    proof (cases "is_Exception e")
      case False
      then show ?thesis using c fields Some by (auto simp: cycle_def)
    next
      case True
      obtain st2 evs2 c2 where h: "except_handler env st1 e = (st2, evs2, c2)"
        by (cases "except_handler env st1 e") auto
      note hc = handler_cases [OF h]
      show ?thesis
      proof (cases c2)
        case Continue
        then show ?thesis
          using c fields Some True h w wait_cases [OF w] hc(1) hc(2) ce lo
          by (auto simp: cycle_def)
      next
        case Break
        then show ?thesis
          using c fields Some True h hc(1) hc(3) ce hi by (auto simp: cycle_def)
      next
        case (Escape x)
        then show ?thesis
          using c fields Some True h hc(4) [of x] by (auto simp: cycle_def)
      qed
    qed
  qed
qed

lemma loop_invariant:
  "monitor_loop title st envs = (st', evs, r) \<Longrightarrow>
   0 \<le> consecutive_errors st \<Longrightarrow> consecutive_errors st < 5 \<Longrightarrow>
     (r = Broke \<longrightarrow> consecutive_errors st' = 5)
   \<and> (r = Running \<longrightarrow> 0 \<le> consecutive_errors st' \<and> consecutive_errors st' < 5)
   \<and> (\<forall>x. r = Raised x \<longrightarrow> \<not> is_Exception x
         \<or> (\<exists>env \<in> set envs. sleep env = Some x
               \<or> (\<exists>text. send_warning env text = Some x \<or> send_stopped env text = Some x)))"
proof (induction envs arbitrary: st st' evs r)
  case Nil
  then show ?case by simp
next
  case (Cons env envs)
  obtain s1 e1 c1 where cy: "cycle title env st = (s1, e1, c1)"
    by (cases "cycle title env st") auto
  note step = cycle_step [OF cy Cons.prems(2) Cons.prems(3)]
  show ?case
  proof (cases c1)
    case Continue
    obtain s2 e2 r2 where rest: "monitor_loop title s1 envs = (s2, e2, r2)"
      by (cases "monitor_loop title s1 envs") auto
    have inv: "0 \<le> consecutive_errors s1" "consecutive_errors s1 < 5"
      using step Continue by auto
    have eq: "s2 = st'" "r2 = r" using Cons.prems(1) cy Continue rest by auto
    show ?thesis using Cons.IH [OF rest inv] eq by auto
  next
    case Break
    then show ?thesis using Cons.prems(1) cy step by auto
  next
    case (Escape x)
    then show ?thesis using Cons.prems(1) cy step by auto
  qed
qed

lemma init_counter: "0 \<le> consecutive_errors init_state" "consecutive_errors init_state < 5"
  by (simp_all add: init_state_def)

text \<open>
  C2, as the code has it. From the initial state, over any cycles: when the loop breaks,
  \<open>consecutive_errors\<close> is 5; while it runs, the counter is between 0 and 4, so the loop
  never goes on with the counter at 5; and an exception that leaves the loop is either not
  an \<open>Exception\<close> (an interruption), or was raised by \<open>time.sleep\<close>, or was raised by the
  warning or the stop notification send inside the handler of a cycle.
\<close>

theorem loop_exit_characterised:
  "monitor_loop title init_state envs = (st', evs, r) \<Longrightarrow>
     (r = Broke \<longrightarrow> consecutive_errors st' = 5)
   \<and> (r = Running \<longrightarrow> 0 \<le> consecutive_errors st' \<and> consecutive_errors st' < 5)
   \<and> (\<forall>x. r = Raised x \<longrightarrow> \<not> is_Exception x
         \<or> (\<exists>env \<in> set envs. sleep env = Some x
               \<or> (\<exists>text. send_warning env text = Some x \<or> send_stopped env text = Some x)))"
  by (rule loop_invariant [OF _ init_counter])

theorem loop_exit_characterised_witness:
  "(ending_of (monitor_loop id init_state (replicate 5 failing_cycle)) = Broke
     \<and> consecutive_errors (state_of (monitor_loop id init_state (replicate 5 failing_cycle))) = 5)
   \<and> (ending_of (monitor_loop id init_state [failing_cycle, quiet_cycle, failing_cycle]) = Running
     \<and> consecutive_errors
          (state_of (monitor_loop id init_state [failing_cycle, quiet_cycle, failing_cycle])) < 5)
   \<and> (ending_of (monitor_loop id init_state two_failures_then_outage)
         = Raised (Exception ''telegram'')
     \<and> (\<exists>env \<in> set two_failures_then_outage.
           sleep env = Some (Exception ''telegram'')
           \<or> (\<exists>text. send_warning env text = Some (Exception ''telegram'')
                 \<or> send_stopped env text = Some (Exception ''telegram''))))"
proof -
  let ?a = "monitor_loop id init_state (replicate 5 failing_cycle)"
  let ?b = "monitor_loop id init_state [failing_cycle, quiet_cycle, failing_cycle]"
  let ?c = "monitor_loop id init_state two_failures_then_outage"
  have a: "ending_of ?a = Broke" by code_simp
  have b: "ending_of ?b = Running" by code_simp
  have c: "ending_of ?c = Raised (Exception ''telegram'')" by code_simp
  have ea: "?a = (state_of ?a, events_of ?a, Broke)" using a by (metis prod.collapse)
  have eb: "?b = (state_of ?b, events_of ?b, Running)" using b by (metis prod.collapse)
  have ec: "?c = (state_of ?c, events_of ?c, Raised (Exception ''telegram''))"
    using c by (metis prod.collapse)
  show ?thesis
    using a b c loop_exit_characterised [OF ea] loop_exit_characterised [OF eb]
      loop_exit_characterised [OF ec]
    by simp
qed

text \<open>
  C2 as stated fails: the third failure of a streak sends the warning, the send raises, and
  the exception leaves the loop with \<open>consecutive_errors\<close> at 3. No interruption took place
  and the loop did not break.
\<close>

theorem loop_ends_only_at_five_counterexample:
  "ending_of (monitor_loop id init_state two_failures_then_outage) = Raised (Exception ''telegram'')
   \<and> consecutive_errors (state_of (monitor_loop id init_state two_failures_then_outage)) = 3"
  by code_simp

section \<open>The switch to the enhanced method\<close>

lemma cycle_flag:
  assumes "use_enhanced_method st"
  shows "use_enhanced_method (state_of (cycle title env st))"
proof -
  obtain st1 evs1 r where b: "try_body title env st = (st1, evs1, r)"
    by (cases "try_body title env st") auto
  obtain st' evs c where c: "cycle title env st = (st', evs, c)"
    by (cases "cycle title env st") auto
  show ?thesis
    using cycle_flag_from_body [OF b c] try_body_flag [OF b assms] c by simp
qed

lemma loop_flag:
  "use_enhanced_method st \<Longrightarrow> use_enhanced_method (state_of (monitor_loop title st envs))"
proof (induction envs arbitrary: st)
  case Nil
  then show ?case by simp
next
  case (Cons env envs)
  have f: "use_enhanced_method (state_of (cycle title env st))" using Cons.prems by (rule cycle_flag)
  show ?case
  proof (cases "cycle title env st")
    case (fields s1 e1 c1)
    then have s1: "use_enhanced_method s1" using f by simp
    show ?thesis
      using fields s1 Cons.IH [OF s1]
      by (cases c1) (auto split: prod.splits)
  qed
qed

lemma primary_failure_sets_flag:
  assumes "current_time env = Inr now" "check_appointments env = Inl (Exception m)"
  shows "use_enhanced_method (state_of (cycle title env st))"
proof -
  obtain st1 evs1 r where b: "try_body title env st = (st1, evs1, r)"
    by (cases "try_body title env st") auto
  obtain st' evs c where c: "cycle title env st = (st', evs, c)"
    by (cases "cycle title env st") auto
  have "use_enhanced_method st1"
    using b assms unfolding try_body_def Let_def primary_phase_def
    by (auto split: sum.splits prod.splits option.splits if_splits)
  then show ?thesis using cycle_flag_from_body [OF b c] c by simp
qed

text \<open>
  C3. \<open>use_enhanced_method\<close> starts false; a cycle in which the primary checker is called
  and raises an \<open>Exception\<close> ends with it true; a cycle that starts with it true ends with
  it true; and so does any run of the loop.
\<close>

theorem use_enhanced_method_one_way:
  "\<not> use_enhanced_method init_state
   \<and> (current_time env = Inr now \<and> check_appointments env = Inl (Exception m)
        \<longrightarrow> use_enhanced_method (state_of (cycle title env st)))
   \<and> (use_enhanced_method st \<longrightarrow> use_enhanced_method (state_of (cycle title env st)))
   \<and> (use_enhanced_method st \<longrightarrow> use_enhanced_method (state_of (monitor_loop title st envs)))"
  using primary_failure_sets_flag [of env now m title st] cycle_flag [of st title env]
    loop_flag [of st title envs]
  by (simp add: init_state_def)

theorem use_enhanced_method_one_way_witness:
  "\<not> use_enhanced_method init_state
   \<and> current_time primary_fails = Inr ''2024-05-01 09:00:00 +01''
   \<and> check_appointments primary_fails = Inl (Exception ''markup'')
   \<and> use_enhanced_method (state_of (cycle id primary_fails init_state))
   \<and> use_enhanced_method (state_of (cycle id primary_finds (state_of (cycle id primary_fails init_state))))
   \<and> use_enhanced_method (state_of (monitor_loop id (state_of (cycle id primary_fails init_state))
        [quiet_cycle, failing_cycle, primary_finds]))"
proof -
  have h: "current_time primary_fails = Inr ''2024-05-01 09:00:00 +01''"
    "check_appointments primary_fails = Inl (Exception ''markup'')"
    by (simp_all add: primary_fails_def quiet_cycle_def)
  note t = use_enhanced_method_one_way [of primary_fails "''2024-05-01 09:00:00 +01''" "''markup''"
      id init_state "[]"]
  have s: "use_enhanced_method (state_of (cycle id primary_fails init_state))"
    using t h by simp
  note u = use_enhanced_method_one_way [of primary_finds "''x''" "''y''" id
      "state_of (cycle id primary_fails init_state)" "[quiet_cycle, failing_cycle, primary_finds]"]
  show ?thesis using t h s u by simp
qed

section \<open>The fallback checker\<close>

lemma body_no_fallback:
  assumes "\<not> use_enhanced_method st" "check_appointments env = Inr found" "found \<noteq> []"
    and "try_body title env st = (st1, evs, r)"
  shows "CheckAvailability \<notin> set evs"
  using assms
  unfolding try_body_def Let_def primary_phase_def enhanced_phase_def notify_phase_def
  by (auto split: sum.splits prod.splits option.splits dest: notify_all_no_fallback)

text \<open>
  C4. In a cycle that starts with \<open>use_enhanced_method\<close> false and in which the primary
  checker returns a non-empty list, the fallback checker is not called.
\<close>

theorem fallback_not_invoked:
  assumes "\<not> use_enhanced_method st" "check_appointments env = Inr found" "found \<noteq> []"
  shows "CheckAvailability \<notin> set (events_of (cycle title env st))"
proof -
  obtain st1 evs1 r where b: "try_body title env st = (st1, evs1, r)"
    by (cases "try_body title env st") auto
  note nb = body_no_fallback [OF assms b]
  show ?thesis
    using b nb unfolding cycle_def wait_def
    by (auto split: prod.splits option.splits control.splits if_splits dest: handler_no_fallback)
qed

theorem fallback_not_invoked_witness:
  "\<not> use_enhanced_method init_state \<and> check_appointments primary_finds = Inr [slot]
   \<and> [slot] \<noteq> [] \<and> CheckAppointments \<in> set (events_of (cycle id primary_finds init_state))
   \<and> CheckAvailability \<notin> set (events_of (cycle id primary_finds init_state))"
proof -
  have h: "\<not> use_enhanced_method init_state" "check_appointments primary_finds = Inr [slot]"
    "[slot] \<noteq> []"
    by (simp_all add: init_state_def primary_finds_def quiet_cycle_def)
  have p: "CheckAppointments \<in> set (events_of (cycle id primary_finds init_state))"
    by code_simp
  show ?thesis using h p fallback_not_invoked [OF h, of id] by simp
qed


lemma notify_all_ignores_fallback [simp]:
  "notify_all title (env\<lparr>check_availability := x\<rparr>) k apps = notify_all title env k apps"
  by (induction apps arbitrary: k) (simp_all split: sum.splits option.splits)

lemma handler_ignores_fallback [simp]:
  "except_handler (env\<lparr>check_availability := x\<rparr>) st e = except_handler env st e"
  by (simp add: except_handler_def Let_def split: option.splits)

lemma wait_ignores_fallback [simp]: "wait (env\<lparr>check_availability := x\<rparr>) = wait env"
  by (simp add: wait_def)

lemma enhanced_phase_absorbs:
  "check_availability env = Inl (Exception m) \<Longrightarrow>
     \<exists>evs. enhanced_phase env ue apps = (apps, evs, None)"
  by (simp add: enhanced_phase_def)

lemma body_absorbs:
  assumes "check_availability env = Inl (Exception m)"
  shows "state_of (try_body title env st)
           = state_of (try_body title (env\<lparr>check_availability := Inr []\<rparr>) st)
       \<and> ending_of (try_body title env st)
           = ending_of (try_body title (env\<lparr>check_availability := Inr []\<rparr>) st)
       \<and> filter (\<lambda>e. e \<noteq> Log ERROR) (events_of (try_body title env st))
           = filter (\<lambda>e. e \<noteq> Log ERROR)
               (events_of (try_body title (env\<lparr>check_availability := Inr []\<rparr>) st))"
  using assms
  unfolding try_body_def Let_def primary_phase_def enhanced_phase_def notify_phase_def
  by (auto split: sum.splits prod.splits option.splits)

lemma cycle_absorbs:
  assumes "check_availability env = Inl (Exception m)"
  shows "state_of (cycle title env st)
           = state_of (cycle title (env\<lparr>check_availability := Inr []\<rparr>) st)
       \<and> ending_of (cycle title env st)
           = ending_of (cycle title (env\<lparr>check_availability := Inr []\<rparr>) st)
       \<and> filter (\<lambda>e. e \<noteq> Log ERROR) (events_of (cycle title env st))
           = filter (\<lambda>e. e \<noteq> Log ERROR)
               (events_of (cycle title (env\<lparr>check_availability := Inr []\<rparr>) st))"
proof -
  let ?env' = "env\<lparr>check_availability := Inr []\<rparr>"
  obtain s1 e1 r1 where b: "try_body title env st = (s1, e1, r1)"
    by (cases "try_body title env st") auto
  obtain s2 e2 r2 where b': "try_body title ?env' st = (s2, e2, r2)"
    by (cases "try_body title ?env' st") auto
  have eq: "s2 = s1" "r2 = r1" "filter (\<lambda>e. e \<noteq> Log ERROR) e1 = filter (\<lambda>e. e \<noteq> Log ERROR) e2"
    using body_absorbs [OF assms, of title st] b b' by simp_all
  show ?thesis
    unfolding cycle_def b b' using eq
    by (auto split: option.splits prod.splits control.splits)
qed

lemma completed_cycle_resets:
  assumes "ending_of (try_body title env st) = None"
  shows "consecutive_errors (state_of (cycle title env st)) = 0"
proof -
  obtain s1 e1 r1 where b: "try_body title env st = (s1, e1, r1)"
    by (cases "try_body title env st") auto
  have "r1 = None" using assms b by simp
  then show ?thesis
    using b try_body_reset [of title env st s1 e1]
    by (simp add: cycle_def split: prod.splits)
qed

text \<open>
  C5. When the fallback checker raises an \<open>Exception\<close>, lines 69 to 76 end without an
  exception and with the records collected so far, and the whole cycle ends in the same
  state, with the same control and, the error log line apart, the same events as if the
  fallback checker had returned an empty list: the failure neither counts as an error nor
  ends the cycle. And whenever the body of the \<open>try\<close> runs to its end, the cycle leaves
  \<open>consecutive_errors\<close> at 0.
\<close>

theorem fallback_failure_absorbed:
  "(check_availability env = Inl (Exception m) \<longrightarrow>
       (\<exists>evs. enhanced_phase env ue apps = (apps, evs, None))
     \<and> state_of (cycle title env st)
         = state_of (cycle title (env\<lparr>check_availability := Inr []\<rparr>) st)
     \<and> ending_of (cycle title env st)
         = ending_of (cycle title (env\<lparr>check_availability := Inr []\<rparr>) st)
     \<and> filter (\<lambda>e. e \<noteq> Log ERROR) (events_of (cycle title env st))
         = filter (\<lambda>e. e \<noteq> Log ERROR)
             (events_of (cycle title (env\<lparr>check_availability := Inr []\<rparr>) st)))
   \<and> (ending_of (try_body title env st) = None \<longrightarrow>
        consecutive_errors (state_of (cycle title env st)) = 0)"
  using enhanced_phase_absorbs [of env m ue apps] cycle_absorbs [of env m title st]
    completed_cycle_resets [of title env st]
  by blast

theorem fallback_failure_absorbed_witness:
  "check_availability fallback_fails = Inl (Exception ''blocked'')
   \<and> CheckAvailability \<in> set (events_of (cycle id fallback_fails (init_state\<lparr>consecutive_errors := 2\<rparr>)))
   \<and> ending_of (try_body id fallback_fails (init_state\<lparr>consecutive_errors := 2\<rparr>)) = None
   \<and> ending_of (cycle id fallback_fails (init_state\<lparr>consecutive_errors := 2\<rparr>)) = Continue
   \<and> consecutive_errors (state_of (cycle id fallback_fails (init_state\<lparr>consecutive_errors := 2\<rparr>))) = 0"
proof -
  let ?st = "init_state\<lparr>consecutive_errors := 2\<rparr>"
  have h: "check_availability fallback_fails = Inl (Exception ''blocked'')"
    by (simp add: fallback_fails_def)
  have called: "CheckAvailability \<in> set (events_of (cycle id fallback_fails ?st))"
    by code_simp
  have finished: "ending_of (try_body id fallback_fails ?st) = None"
    by code_simp
  have same: "fallback_fails\<lparr>check_availability := Inr []\<rparr> = quiet_cycle"
    by (simp add: fallback_fails_def quiet_cycle_def)
  have q: "ending_of (cycle id quiet_cycle ?st) = Continue"
    by code_simp
  note t = fallback_failure_absorbed [of fallback_fails "''blocked''" False "[]" id ?st]
  have reset: "consecutive_errors (state_of (cycle id fallback_fails ?st)) = 0"
    using t finished by blast
  have "ending_of (cycle id fallback_fails ?st)
          = ending_of (cycle id (fallback_fails\<lparr>check_availability := Inr []\<rparr>) ?st)"
    using t h by blast
  then have goes_on: "ending_of (cycle id fallback_fails ?st) = Continue"
    by (simp only: same q)
  show ?thesis
    using h called finished goes_on reset by blast
qed

section \<open>Failures of the notifier\<close>

text \<open>
  C8. In a failing cycle, when the counter after its increment is 3 or more and the warning
  send raises, or when it is 5 or more, the warning send returns and the stop send raises,
  the exception is not caught: the loop ends there by that exception, whatever cycles would
  follow, with the counter incremented. With the counter at 3 or 4 this is below 5.
\<close>

theorem handler_send_failure_escapes:
  assumes body: "try_body title env st = (st1, evs, Some (Exception m))"
  shows "(3 \<le> consecutive_errors st + 1
          \<and> send_warning env
               (warning_text (error_msg (consecutive_errors st + 1) (Exception m))) = Some x
          \<longrightarrow> monitor_loop title st (env # rest) =
                (st1\<lparr>consecutive_errors := consecutive_errors st + 1\<rparr>,
                 evs @ [Log ERROR,
                   SendMessage (warning_text (error_msg (consecutive_errors st + 1) (Exception m)))],
                 Raised x))
       \<and> (5 \<le> consecutive_errors st + 1
          \<and> send_warning env
               (warning_text (error_msg (consecutive_errors st + 1) (Exception m))) = None
          \<and> send_stopped env stopped_text = Some x
          \<longrightarrow> monitor_loop title st (env # rest) =
                (st1\<lparr>consecutive_errors := consecutive_errors st + 1\<rparr>,
                 evs @ [Log ERROR,
                   SendMessage (warning_text (error_msg (consecutive_errors st + 1) (Exception m))),
                   Log CRITICAL, SendMessage stopped_text],
                 Raised x))"
proof -
  have ce: "consecutive_errors st1 = consecutive_errors st"
    using body try_body_counter by blast
  show ?thesis
    using body ce
    by (simp add: cycle_def except_handler_def Let_def max_consecutive_errors_def)
qed


theorem handler_send_failure_escapes_witness:
  "try_body id warning_send_fails (init_state\<lparr>consecutive_errors := 2\<rparr>)
     = (init_state\<lparr>consecutive_errors := 2\<rparr>, [], Some (Exception ''clock''))
   \<and> ending_of (monitor_loop id (init_state\<lparr>consecutive_errors := 2\<rparr>)
        [warning_send_fails, quiet_cycle]) = Raised (Exception ''telegram'')
   \<and> consecutive_errors (state_of (monitor_loop id (init_state\<lparr>consecutive_errors := 2\<rparr>)
        [warning_send_fails, quiet_cycle])) = 3
   \<and> try_body id stop_send_fails (init_state\<lparr>consecutive_errors := 4\<rparr>)
     = (init_state\<lparr>consecutive_errors := 4\<rparr>, [], Some (Exception ''clock''))
   \<and> ending_of (monitor_loop id (init_state\<lparr>consecutive_errors := 4\<rparr>)
        [stop_send_fails, quiet_cycle]) = Raised (Exception ''telegram'')"
proof -
  have b1: "try_body id warning_send_fails (init_state\<lparr>consecutive_errors := 2\<rparr>)
     = (init_state\<lparr>consecutive_errors := 2\<rparr>, [], Some (Exception ''clock''))"
    by (simp add: try_body_def warning_send_fails_def failing_cycle_def)
  have b2: "try_body id stop_send_fails (init_state\<lparr>consecutive_errors := 4\<rparr>)
     = (init_state\<lparr>consecutive_errors := 4\<rparr>, [], Some (Exception ''clock''))"
    by (simp add: try_body_def stop_send_fails_def failing_cycle_def)
  have w: "send_warning warning_send_fails t = Some (Exception ''telegram'')" for t
    by (simp add: warning_send_fails_def)
  have s: "send_warning stop_send_fails t = None"
    "send_stopped stop_send_fails t = Some (Exception ''telegram'')" for t
    by (simp_all add: stop_send_fails_def failing_cycle_def quiet_cycle_def)
  show ?thesis
    using b1 b2
      handler_send_failure_escapes [OF b1, of "Exception ''telegram''" "[quiet_cycle]"]
      handler_send_failure_escapes [OF b2, of "Exception ''telegram''" "[quiet_cycle]"]
    by (simp add: w s init_state_def)
qed

text \<open>
  C7. When an \<open>Exception\<close> leaves the monitoring loop, \<open>main\<close> logs at the critical level,
  calls the notifier once with the critical error text, and ends by that same exception
  propagating to its caller, whatever the outcome of that last send.
\<close>

theorem top_level_handler_reraises:
  assumes "keep_alive env = None"
    and "send_startup env (startup_text (start_time env)) = None"
    and "monitor_loop title init_state (cycles env) = (st, evs, Raised (Exception m))"
  shows "main title env =
           (KeepAlive # Log INFO # SendMessage (startup_text (start_time env)) # evs
              @ [Log CRITICAL, SendMessage (critical_text (Exception m))],
            Propagated (Exception m))"
  using assms by (simp add: main_def try_block_def split: option.splits)

theorem top_level_handler_reraises_witness:
  "keep_alive outage = None \<and> send_startup outage (startup_text (start_time outage)) = None
   \<and> ending_of (monitor_loop id init_state (cycles outage)) = Raised (Exception ''telegram'')
   \<and> send_final outage (critical_text (Exception ''telegram'')) = Some (Exception ''telegram'')
   \<and> snd (main id outage) = Propagated (Exception ''telegram'')
   \<and> drop (length (fst (main id outage)) - 2) (fst (main id outage))
       = [Log CRITICAL, SendMessage (critical_text (Exception ''telegram''))]"
proof -
  let ?r = "monitor_loop id init_state (cycles outage)"
  have h: "keep_alive outage = None" "send_startup outage (startup_text (start_time outage)) = None"
    "send_final outage (critical_text (Exception ''telegram'')) = Some (Exception ''telegram'')"
    by (simp_all add: outage_def)
  have c: "ending_of ?r = Raised (Exception ''telegram'')" by code_simp
  have e: "?r = (state_of ?r, events_of ?r, Raised (Exception ''telegram''))"
    using c by (metis prod.collapse)
  show ?thesis
    using h c top_level_handler_reraises [OF h(1) h(2) e] by simp
qed

lemma notify_all_stops:
  "k < length apps \<Longrightarrow>
   \<forall>i\<le>k. format_appointment_message title (found_at env (j + i)) (apps ! i) = Inr (msg (j + i)) \<Longrightarrow>
   \<forall>i<k. send_message env (j + i) (msg (j + i)) = None \<Longrightarrow>
   send_message env (j + k) (msg (j + k)) = Some e \<Longrightarrow>
   notify_all title env j apps =
     (concat (map (\<lambda>i. [SendMessage (msg i), Log INFO]) [j..<j + k]) @ [SendMessage (msg (j + k))],
      Some e)"
proof (induction k arbitrary: j apps)
  case 0
  then obtain a rest where apps: "apps = a # rest" by (cases apps) auto
  show ?case using 0 apps by simp
next
  case (Suc k)
  then obtain a rest where apps: "apps = a # rest" by (cases apps) auto
  have len: "k < length rest" using Suc.prems(1) apps by simp
  have f0: "format_appointment_message title (found_at env j) a = Inr (msg j)"
    using Suc.prems(2) apps by (auto dest: spec [of _ 0])
  have s0: "send_message env j (msg j) = None"
    using Suc.prems(3) by (auto dest: spec [of _ 0])
  have fr: "\<forall>i\<le>k. format_appointment_message title (found_at env (Suc j + i)) (rest ! i)
              = Inr (msg (Suc j + i))"
  proof (intro allI impI)
    fix i assume "i \<le> k"
    then have "Suc i \<le> Suc k" by simp
    then show "format_appointment_message title (found_at env (Suc j + i)) (rest ! i)
              = Inr (msg (Suc j + i))"
      using Suc.prems(2) apps by (auto dest!: spec [of _ "Suc i"])
  qed
  have sr: "\<forall>i<k. send_message env (Suc j + i) (msg (Suc j + i)) = None"
  proof (intro allI impI)
    fix i assume "i < k"
    then have "Suc i < Suc k" by simp
    then show "send_message env (Suc j + i) (msg (Suc j + i)) = None"
      using Suc.prems(3) by (auto dest!: spec [of _ "Suc i"])
  qed
  have last: "send_message env (Suc j + k) (msg (Suc j + k)) = Some e"
    using Suc.prems(4) by simp
  have rest_eq: "notify_all title env (Suc j) rest =
     (concat (map (\<lambda>i. [SendMessage (msg i), Log INFO]) [Suc j..<Suc j + k])
        @ [SendMessage (msg (Suc j + k))], Some e)"
    by (rule Suc.IH [OF len fr sr last])
  have upt: "[j..<j + Suc k] = j # [Suc j..<Suc j + k]"
    by (simp add: upt_conv_Cons)
  show ?case
    unfolding apps upt using f0 s0 rest_eq by simp
qed


text \<open>
  C9. Take a cycle that reaches the notifications with the records \<open>apps\<close>, in which the
  records before the \<open>k\<close>-th are formatted and sent, and the send for the \<open>k\<close>-th raises
  an \<open>Exception\<close>. The body of the \<open>try\<close> ends there by that exception: its sends are those
  of the records up to the \<open>k\<close>-th and no more, whatever records follow. The cycle leaves
  \<open>consecutive_errors\<close> one higher than it found it, and \<open>last_check_time\<close> as it found it.
\<close>

theorem send_failure_ends_notifications:
  assumes now: "current_time env = Inr now"
    and p: "primary_phase env (use_enhanced_method st) = (found, ue, evs1, None)"
    and f: "enhanced_phase env ue found = (apps, evs2, None)"
    and k: "k < length apps"
    and fmt: "\<forall>i\<le>k. format_appointment_message title (found_at env i) (apps ! i) = Inr (msg i)"
    and ok: "\<forall>i<k. send_message env i (msg i) = None"
    and bad: "send_message env k (msg k) = Some (Exception m)"
  shows "try_body title env st =
           (st\<lparr>use_enhanced_method := ue\<rparr>,
            Log INFO # evs1 @ evs2 @ Log INFO
              # concat (map (\<lambda>i. [SendMessage (msg i), Log INFO]) [0..<k]) @ [SendMessage (msg k)],
            Some (Exception m))
       \<and> consecutive_errors (state_of (cycle title env st)) = consecutive_errors st + 1
       \<and> last_check_time (state_of (cycle title env st)) = last_check_time st"
proof -
  have ne: "apps \<noteq> []" using k by auto
  have n: "notify_all title env 0 apps =
     (concat (map (\<lambda>i. [SendMessage (msg i), Log INFO]) [0..<0 + k]) @ [SendMessage (msg (0 + k))],
      Some (Exception m))"
    using k fmt ok bad by (intro notify_all_stops) simp_all
  have body: "try_body title env st =
           (st\<lparr>use_enhanced_method := ue\<rparr>,
            Log INFO # evs1 @ evs2 @ Log INFO
              # concat (map (\<lambda>i. [SendMessage (msg i), Log INFO]) [0..<k]) @ [SendMessage (msg k)],
            Some (Exception m))"
    using now p f ne n by (simp add: try_body_def notify_phase_def)
  obtain st2 evs_h c where h:
    "except_handler env (st\<lparr>use_enhanced_method := ue\<rparr>) (Exception m) = (st2, evs_h, c)"
    by (cases "except_handler env (st\<lparr>use_enhanced_method := ue\<rparr>) (Exception m)") auto
  have st2: "st2 = st\<lparr>use_enhanced_method := ue,
                        consecutive_errors := consecutive_errors st + 1\<rparr>"
    using h unfolding except_handler_def Let_def
    by (auto split: if_splits option.splits)
  have "state_of (cycle title env st) = st2"
    using body h by (cases c) (simp_all add: cycle_def split: prod.splits)
  then show ?thesis using body st2 by simp
qed

theorem send_failure_ends_notifications_witness:
  "send_message flood_cycle 1 (flood_text 1) = Some (Exception ''flood'')
   \<and> length three_slots = 3
   \<and> events_of (try_body ascii_title flood_cycle init_state) =
       [Log INFO, CheckAppointments, Log INFO,
        SendMessage (flood_text 0), Log INFO, SendMessage (flood_text 1)]
   \<and> ending_of (try_body ascii_title flood_cycle init_state) = Some (Exception ''flood'')
   \<and> consecutive_errors (state_of (cycle ascii_title flood_cycle init_state)) = 1
   \<and> last_check_time (state_of (cycle ascii_title flood_cycle init_state)) = None"
proof -
  have now: "current_time flood_cycle = Inr ''2024-05-01 09:00:00 +01''"
    by (simp add: flood_cycle_def quiet_cycle_def)
  have p: "primary_phase flood_cycle (use_enhanced_method init_state)
             = (three_slots, False, [CheckAppointments], None)"
    by (simp add: primary_phase_def flood_cycle_def init_state_def)
  have f: "enhanced_phase flood_cycle False three_slots = (three_slots, [], None)"
    by (simp add: enhanced_phase_def three_slots_def)
  have k: "(1::nat) < length three_slots" by (simp add: three_slots_def)
  have f0: "\<exists>t. format_appointment_message ascii_title (found_at flood_cycle 0) (three_slots ! 0) = Inr t"
    by (simp add: three_slots_def slot_def format_appointment_message_def dict_get_def
        subscript_def bind_exn_def)
  have f1: "\<exists>t. format_appointment_message ascii_title (found_at flood_cycle 1) (three_slots ! 1) = Inr t"
    by (simp add: three_slots_def sure_slot_def format_appointment_message_def dict_get_def
        subscript_def bind_exn_def)
  have fmt: "\<forall>i\<le>1. format_appointment_message ascii_title (found_at flood_cycle i)
               (three_slots ! i) = Inr (flood_text i)"
  proof (intro allI impI)
    fix i :: nat assume "i \<le> 1"
    then have "i = 0 \<or> i = 1" by auto
    then show "format_appointment_message ascii_title (found_at flood_cycle i)
               (three_slots ! i) = Inr (flood_text i)"
      using f0 f1 k by (auto simp: flood_text_def)
  qed
  have ok: "\<forall>i<1. send_message flood_cycle i (flood_text i) = None"
    by (simp add: flood_cycle_def)
  have bad: "send_message flood_cycle 1 (flood_text 1) = Some (Exception ''flood'')"
    by (simp add: flood_cycle_def)
  note t = send_failure_ends_notifications [OF now p f k fmt ok bad]
  show ?thesis
    using t bad by (simp add: init_state_def three_slots_def)
qed


end
